theory Spec2Isabelle
  imports Main "HOL-Library.Sublist"
begin

section \<open>Text primitives\<close>

text \<open>
  A Python \<open>str\<close> is a sequence of Unicode code points, and the source counts, compares and
  slices code points (\<open>len\<close>, \<open>out[:n]\<close>, the character classes of \<open>re\<close>). A text is
  therefore a list of code points (the integers that \<open>ord\<close> returns); \<open>u\<close> embeds an
  ASCII literal.
\<close>

type_synonym ustr = "int list"

definition u :: "string \<Rightarrow> ustr" where
  "u s = map of_char s"

text \<open>
  \<open>str.isspace\<close>, which is also the class \<open>\s\<close> of \<open>re\<close> on a \<open>str\<close> pattern and what
  \<open>str.strip()\<close> and \<open>str.split()\<close> remove.
\<close>

definition is_space :: "int \<Rightarrow> bool" where
  "is_space c \<longleftrightarrow>
     (9 \<le> c \<and> c \<le> 13) \<or> (28 \<le> c \<and> c \<le> 32) \<or> c = 133 \<or> c = 160 \<or> c = 5760 \<or>
     (8192 \<le> c \<and> c \<le> 8202) \<or> c = 8232 \<or> c = 8233 \<or> c = 8239 \<or> c = 8287 \<or> c = 12288"

definition SP :: int where "SP = 32"
definition LB :: int where "LB = 91"
definition RB :: int where "RB = 93"

text \<open>\<open>s.strip()\<close>\<close>

definition strip :: "ustr \<Rightarrow> ustr" where
  "strip s = rev (dropWhile is_space (rev (dropWhile is_space s)))"

text \<open>\<open>" ".join(xs)\<close>\<close>

fun join :: "ustr list \<Rightarrow> ustr" where
  "join [] = []"
| "join [x] = x"
| "join (x # y # ys) = x @ SP # join (y # ys)"

text \<open>
  \<open>s.split()\<close>: the maximal runs of non-whitespace characters. The first argument is the
  run read so far, reversed.
\<close>

fun split_ws_acc :: "ustr \<Rightarrow> ustr \<Rightarrow> ustr list" where
  "split_ws_acc cur [] = (if cur = [] then [] else [rev cur])"
| "split_ws_acc cur (c # cs) =
     (if is_space c then (if cur = [] then [] else [rev cur]) @ split_ws_acc [] cs
      else split_ws_acc (c # cur) cs)"

definition split_ws :: "ustr \<Rightarrow> ustr list" where
  "split_ws s = split_ws_acc [] s"

text \<open>
  \<open>xs[:n]\<close> for a Python int \<open>n\<close>: a negative bound counts from the end.
\<close>

definition py_take :: "int \<Rightarrow> 'a list \<Rightarrow> 'a list" where
  "py_take n xs = (if 0 \<le> n then take (nat n) xs else take (length xs - nat (- n)) xs)"

section \<open>Settings (\<open>app.py\<close>, lines 15 to 21)\<close>

definition DEFAULT_MAX_SENTENCES :: int where "DEFAULT_MAX_SENTENCES = 3"
definition DEFAULT_TOPK :: int where "DEFAULT_TOPK = 5"
definition MAX_SENT_CHARS :: int where "MAX_SENT_CHARS = 300"

definition STOPWORDS :: "ustr list" where
  "STOPWORDS =
    [[44536, 47532, 44256], [44536, 47084, 45208], [44536, 47000, 49436], [46608, 45716],
     [46608, 54620], [48143], [46321], [51060], [44536], [51200], [44163], [49688],
     [46321, 46321], [50640], [51032], [51008], [45716], [51060], [44032], [51012], [47484],
     [51004, 47196], [47196], [50640, 49436], [48512, 53552], [44620, 51648], [46020],
     [47564], [48372, 45796], [48372, 45796, 46020],
     u ''the'', u ''a'', u ''an'', u ''and'', u ''or'', u ''but'', u ''if'', u ''then'',
     u ''else'', u ''also'', u ''to'', u ''of'', u ''in'', u ''on'', u ''at'', u ''for'',
     u ''from'', u ''with'', u ''by'', u ''as'', u ''is'', u ''are'', u ''was'', u ''were'',
     u ''be'', u ''been'', u ''being'', u ''this'', u ''that'', u ''these'', u ''those'']"

definition is_stopword :: "ustr \<Rightarrow> bool" where
  "is_stopword t \<longleftrightarrow> t \<in> set STOPWORDS"

section \<open>Sentence splitting (\<open>split_sentences\<close>)\<close>

text \<open>
  \<open>re.sub(r"\s+", " ", text)\<close>: every maximal run of whitespace becomes one space. The flag
  says that the previous character was whitespace, so that the run has been replaced already.
\<close>

fun collapse_ws_from :: "bool \<Rightarrow> ustr \<Rightarrow> ustr" where
  "collapse_ws_from prev [] = []"
| "collapse_ws_from prev (c # cs) =
     (if is_space c then (if prev then collapse_ws_from True cs else SP # collapse_ws_from True cs)
      else c # collapse_ws_from False cs)"

definition collapse_ws :: "ustr \<Rightarrow> ustr" where
  "collapse_ws s = collapse_ws_from False s"

text \<open>
  \<open>re.sub(r"\[[^\]]+\]", " ", t)\<close>: scanning from the left, an opening bracket followed by
  one or more characters other than \<open>]\<close> and then by \<open>]\<close> is replaced by one space, and the
  scan goes on behind the match. The greedy \<open>[^\]]+\<close> reads up to the next \<open>]\<close>; it fails
  when that \<open>]\<close> comes at once or never comes.
\<close>

function strip_brackets :: "ustr \<Rightarrow> ustr" where
  "strip_brackets [] = []"
| "strip_brackets (c # cs) =
     (if c = LB \<and> takeWhile (\<lambda>x. x \<noteq> RB) cs \<noteq> [] \<and> dropWhile (\<lambda>x. x \<noteq> RB) cs \<noteq> []
      then SP # strip_brackets (tl (dropWhile (\<lambda>x. x \<noteq> RB) cs))
      else c # strip_brackets cs)"
  by pat_completeness auto
termination
proof (relation "measure length")
  show "wf (measure length)" by simp
next
  fix c :: int and cs :: ustr
  have "length (tl (dropWhile (\<lambda>x. x \<noteq> RB) cs)) \<le> length cs"
    using length_dropWhile_le [of "\<lambda>x. x \<noteq> RB" cs] by simp
  then show "(tl (dropWhile (\<lambda>x. x \<noteq> RB) cs), c # cs) \<in> measure length"
    by simp
next
  fix c :: int and cs :: ustr
  show "(cs, c # cs) \<in> measure length" by simp
qed

text \<open>
  \<open>re.split(r'(?<=[.!?])(?=\s|\[)|(?<=\<dots>\.)(?=\s|\[)', t)\<close>: the pattern matches the empty
  string between a terminal mark and a following whitespace character or opening bracket
  (the second alternative asks for a full stop before the position as well, so it adds no
  position). The first argument is the part read so far, reversed.
\<close>

definition is_terminal :: "int \<Rightarrow> bool" where
  "is_terminal c \<longleftrightarrow> c = 46 \<or> c = 33 \<or> c = 63"

fun re_split :: "ustr \<Rightarrow> ustr \<Rightarrow> ustr list" where
  "re_split cur [] = [rev cur]"
| "re_split cur [c] = [rev (c # cur)]"
| "re_split cur (c # d # cs) =
     (if is_terminal c \<and> (is_space d \<or> d = LB) then rev (c # cur) # re_split [] (d # cs)
      else re_split (c # cur) (d # cs))"

definition split_sentences :: "ustr \<Rightarrow> ustr list" where
  "split_sentences text =
     (let t = strip (collapse_ws text) in
      if t = [] then []
      else filter (\<lambda>p. 2 < length p) (map strip (re_split [] (strip_brackets t))))"

section \<open>Tokens and frequencies\<close>

text \<open>
  \<open>re.findall(r"[A-Za-z\<dots>]{2,}", text)\<close> with the Hangul syllables U+AC00 to U+D7A3 as
  the second range: the maximal runs of letters that have two letters or more, lowered.
\<close>

definition is_letter :: "int \<Rightarrow> bool" where
  "is_letter c \<longleftrightarrow> (65 \<le> c \<and> c \<le> 90) \<or> (97 \<le> c \<and> c \<le> 122) \<or> (44032 \<le> c \<and> c \<le> 55203)"

definition lower_char :: "int \<Rightarrow> int" where
  "lower_char c = (if 65 \<le> c \<and> c \<le> 90 then c + 32 else c)"

definition emit :: "ustr \<Rightarrow> ustr list" where
  "emit cur = (if 2 \<le> length cur then [rev cur] else [])"

fun findall_acc :: "ustr \<Rightarrow> ustr \<Rightarrow> ustr list" where
  "findall_acc cur [] = emit cur"
| "findall_acc cur (c # cs) =
     (if is_letter c then findall_acc (c # cur) cs else emit cur @ findall_acc [] cs)"

definition tokenize :: "ustr \<Rightarrow> ustr list" where
  "tokenize text = map (map lower_char) (findall_acc [] text)"

text \<open>
  \<open>collections.Counter\<close>: a dictionary that keeps its keys in the order of first
  insertion, here an association list in that order.
\<close>

type_synonym counter = "(ustr \<times> nat) list"

fun bump :: "ustr \<Rightarrow> counter \<Rightarrow> counter" where
  "bump w [] = [(w, 1)]"
| "bump w ((k, c) # r) = (if k = w then (k, Suc c) # r else (k, c) # bump w r)"

definition Counter :: "ustr list \<Rightarrow> counter" where
  "Counter ws = foldl (\<lambda>m w. bump w m) [] ws"

text \<open>\<open>freq.get(t, 0)\<close>\<close>

definition get0 :: "counter \<Rightarrow> ustr \<Rightarrow> nat" where
  "get0 m w = (case map_of m w of None \<Rightarrow> 0 | Some c \<Rightarrow> c)"

definition word_freq :: "ustr \<Rightarrow> counter" where
  "word_freq text = Counter (filter (\<lambda>t. \<not> is_stopword t) (tokenize text))"

text \<open>
  \<open>Counter.most_common(k)\<close> is \<open>heapq.nlargest(k, items, key=count)\<close>, which is
  \<open>sorted(items, key=count, reverse=True)[:k]\<close> for a positive \<open>k\<close> and the empty list
  otherwise. Python's sort is stable also under \<open>reverse=True\<close>, that is a stable sort on
  the negated key.
\<close>

definition most_common :: "int \<Rightarrow> counter \<Rightarrow> (ustr \<times> nat) list" where
  "most_common k m = take (nat k) (sort_key (\<lambda>(w, c). - int c) m)"

definition keyword_topk :: "ustr \<Rightarrow> int \<Rightarrow> ustr list \<times> counter" where
  "keyword_topk text k = (let freq = word_freq text in (map fst (most_common k freq), freq))"

section \<open>Summaries (\<open>summarize\<close>)\<close>

definition ELLIPSIS :: int where "ELLIPSIS = 8230"

text \<open>\<open>s if len(s) <= M else s[:M-1] + "\<dots>"\<close>, used where \<open>M > 0\<close>.\<close>

definition clip :: "int \<Rightarrow> ustr \<Rightarrow> ustr" where
  "clip M s = (if int (length s) \<le> M then s else py_take (M - 1) s @ [ELLIPSIS])"

definition sentence_score :: "counter \<Rightarrow> ustr \<Rightarrow> nat" where
  "sentence_score global_freq s =
     sum_list (map (get0 global_freq) (filter (\<lambda>t. \<not> is_stopword t) (tokenize s)))"

definition top_idx :: "ustr \<Rightarrow> int \<Rightarrow> nat list" where
  "top_idx text max_sentences =
     (let sents = split_sentences text;
          global_freq = word_freq text;
          scores = map (sentence_score global_freq) sents
      in sort (py_take max_sentences
                 (sort_key (\<lambda>i. - int (scores ! i)) [0 ..< length sents])))"

definition chosen :: "ustr \<Rightarrow> int \<Rightarrow> ustr list" where
  "chosen text max_sentences = map (\<lambda>i. split_sentences text ! i) (top_idx text max_sentences)"

text \<open>
  \<open>summarize\<close> with the module constant \<open>MAX_SENT_CHARS\<close> as its first argument, so that the
  disabled budget (\<open>MAX_SENT_CHARS <= 0\<close>) is a value of the model too.
\<close>

definition summarize_with :: "int \<Rightarrow> ustr \<Rightarrow> int \<Rightarrow> ustr" where
  "summarize_with M text max_sentences =
     (let sents = split_sentences text in
      if sents = [] then []
      else if int (length sents) \<le> max_sentences then
        (let out = join sents in
         if M \<le> 0 then out else (if int (length out) \<le> M then out else py_take (M - 1) out @ [ELLIPSIS]))
      else
        (let ch = chosen text max_sentences;
             ch' = (if 0 < M then map (clip M) ch else ch)
         in join ch'))"

definition summarize :: "ustr \<Rightarrow> int \<Rightarrow> ustr" where
  "summarize text max_sentences = summarize_with MAX_SENT_CHARS text max_sentences"

section \<open>The content extractor (\<open>POnlyParser\<close>)\<close>

text \<open>
  \<open>HTMLParser.feed\<close> of the standard library reads the page and calls the three handlers of
  the class, in document order: \<open>handle_starttag(tag, attrs)\<close>, \<open>handle_endtag(tag)\<close> and
  \<open>handle_data(data)\<close>. A page is modelled by this sequence of calls. An attribute without a
  value has the value \<open>None\<close>. A tag written \<open><br/>\<close> is a start tag followed by an end tag,
  and the text of a \<open>script\<close> or \<open>style\<close> element reaches the handlers as data, up to the
  end tag of that element.
\<close>

type_synonym attrs = "(ustr \<times> ustr option) list"

datatype event = StartTag ustr attrs | EndTag ustr | Data ustr

record parser =
  in_title :: bool
  in_p :: bool
  in_content :: bool
  content_div_depth :: int
  skip_stack :: "ustr list"
  exclude_stack :: "ustr list"
  title_parts :: "ustr list"
  paras :: "ustr list"

definition init :: parser where
  "init = \<lparr>in_title = False, in_p = False, in_content = False, content_div_depth = 0,
           skip_stack = [], exclude_stack = [], title_parts = [], paras = []\<rparr>"

text \<open>\<open>_get\<close>: the value of the first attribute named \<open>key\<close>, with \<open>None\<close> read as \<open>""\<close>.\<close>

fun p_get :: "attrs \<Rightarrow> ustr \<Rightarrow> ustr" where
  "p_get [] key = []"
| "p_get ((k, v) # r) key =
     (if k = key then (case v of None \<Rightarrow> [] | Some x \<Rightarrow> x) else p_get r key)"

definition has_class :: "attrs \<Rightarrow> ustr \<Rightarrow> bool" where
  "has_class a name \<longleftrightarrow>
     (let cls = p_get a (u ''class'') in name \<in> set (if cls \<noteq> [] then split_ws cls else []))"

definition has_any_class :: "attrs \<Rightarrow> ustr list \<Rightarrow> bool" where
  "has_any_class a names \<longleftrightarrow>
     (let cls = p_get a (u ''class'') in
      if cls = [] then False else list_ex (\<lambda>n. n \<in> set (split_ws cls)) names)"

text \<open>The \<open>if\<close>/\<open>elif\<close> chain of lines 68 to 85, in the order of the source.\<close>

definition excluded :: "ustr \<Rightarrow> attrs \<Rightarrow> bool" where
  "excluded tag a \<longleftrightarrow>
     (if tag \<in> set [u ''nav'', u ''footer'', u ''aside'', u ''table''] then True
      else if tag = u ''div'' then
        has_class a (u ''navbox'') \<or> has_class a (u ''mw-references-wrap'') \<or>
        has_class a (u ''hatnote'') \<or> p_get a (u ''id'') \<in> set [u ''toc'', u ''catlinks'']
      else if tag \<in> set [u ''ol'', u ''ul''] then has_class a (u ''references'')
      else if tag = u ''table'' then has_class a (u ''infobox'') \<or> has_class a (u ''navbox'')
      else if tag = u ''sup'' then has_class a (u ''reference'')
      else False)"

definition is_content_root :: "attrs \<Rightarrow> bool" where
  "is_content_root a \<longleftrightarrow>
     p_get a (u ''id'') \<in> set [u ''mw-content-text'', u ''content''] \<or>
     has_any_class a [u ''mw-parser-output'', u ''mw-body'', u ''mw-body-content'', u ''content'']"

definition enter_div :: "parser \<Rightarrow> attrs \<Rightarrow> parser" where
  "enter_div st a =
     (if is_content_root a then
        st\<lparr>content_div_depth := content_div_depth st + 1, in_content := True\<rparr>
      else if in_content st then st\<lparr>content_div_depth := content_div_depth st + 1\<rparr>
      else st)"

definition handle_starttag :: "parser \<Rightarrow> ustr \<Rightarrow> attrs \<Rightarrow> parser" where
  "handle_starttag st tag a =
     (if tag \<in> set [u ''script'', u ''style''] then st\<lparr>skip_stack := skip_stack st @ [tag]\<rparr>
      else if excluded tag a then st\<lparr>exclude_stack := exclude_stack st @ [tag]\<rparr>
      else
        (let st1 = (if tag = u ''div'' then enter_div st a else st);
             st2 = (if tag = u ''p'' \<and> (in_content st1 \<or> content_div_depth st1 = 0)
                       \<and> exclude_stack st1 = []
                    then st1\<lparr>in_p := True\<rparr> else st1)
         in if tag = u ''title'' then st2\<lparr>in_title := True\<rparr> else st2))"

definition leave_div :: "parser \<Rightarrow> parser" where
  "leave_div st =
     (let st1 = (if 0 < content_div_depth st
                 then st\<lparr>content_div_depth := content_div_depth st - 1\<rparr> else st)
      in if content_div_depth st1 = 0 then st1\<lparr>in_content := False\<rparr> else st1)"

definition handle_endtag :: "parser \<Rightarrow> ustr \<Rightarrow> parser" where
  "handle_endtag st tag =
     (if tag \<in> set [u ''script'', u ''style''] then
        (if skip_stack st \<noteq> [] \<and> last (skip_stack st) = tag
         then st\<lparr>skip_stack := butlast (skip_stack st)\<rparr> else st)
      else
        (let st1 = (if exclude_stack st \<noteq> [] \<and> last (exclude_stack st) = tag
                    then st\<lparr>exclude_stack := butlast (exclude_stack st)\<rparr> else st);
             st2 = (if in_content st1 \<and> tag = u ''div'' then leave_div st1 else st1);
             st3 = (if tag = u ''p'' then st2\<lparr>in_p := False\<rparr> else st2)
         in if tag = u ''title'' then st3\<lparr>in_title := False\<rparr> else st3))"

definition handle_data :: "parser \<Rightarrow> ustr \<Rightarrow> parser" where
  "handle_data st data =
     (if skip_stack st \<noteq> [] \<or> exclude_stack st \<noteq> [] then st
      else
        (let txt = strip data in
         if txt = [] then st
         else if in_title st then st\<lparr>title_parts := title_parts st @ [txt]\<rparr>
         else if in_p st \<and> (in_content st \<or> content_div_depth st = 0)
           then st\<lparr>paras := paras st @ [txt]\<rparr>
         else st))"

fun handle :: "parser \<Rightarrow> event \<Rightarrow> parser" where
  "handle st (StartTag tag a) = handle_starttag st tag a"
| "handle st (EndTag tag) = handle_endtag st tag"
| "handle st (Data d) = handle_data st d"

definition feed_from :: "parser \<Rightarrow> event list \<Rightarrow> parser" where
  "feed_from st evs = foldl handle st evs"

definition feed :: "event list \<Rightarrow> parser" where
  "feed evs = feed_from init evs"

definition get_title :: "parser \<Rightarrow> ustr" where
  "get_title st = strip (join (title_parts st))"

definition get_text :: "parser \<Rightarrow> ustr" where
  "get_text st = strip (join (paras st))"

section \<open>One document (\<open>process_one\<close>)\<close>

text \<open>\<open>", ".join(kws)\<close>\<close>

fun join_comma :: "ustr list \<Rightarrow> ustr" where
  "join_comma [] = []"
| "join_comma [x] = x"
| "join_comma (x # y # ys) = x @ 44 # SP # join_comma (y # ys)"

text \<open>The dictionary that \<open>process_one\<close> returns, with its six keys.\<close>

record result =
  res_url :: ustr
  res_title :: ustr
  res_keywords :: ustr
  res_summary :: ustr
  res_ok :: bool
  res_freq :: counter

text \<open>
  The two fixed markers: \<open>"(\<dots>)"\<close> for a page without body text, and the prefix of
  \<open>f"(\<dots>: {e})"\<close> for an exception \<open>e\<close>.
\<close>

definition EXTRACTION_FAILED :: ustr where
  "EXTRACTION_FAILED = [40, 48376, 47928, 32, 52628, 52636, 32, 49892, 54056, 41]"

definition error_marker :: "ustr \<Rightarrow> ustr" where
  "error_marker e = [40, 50640, 47084, 58, 32] @ e @ [41]"

text \<open>
  What a statement of the program can raise. \<open>Exception msg\<close> is an exception whose class
  derives from \<open>Exception\<close>, with \<open>str(e) = msg\<close>. \<open>NonException name\<close> is one that derives
  from \<open>BaseException\<close> only, such as \<open>KeyboardInterrupt\<close> or \<open>SystemExit\<close>; the clause
  \<open>except Exception\<close> does not catch it.
\<close>

datatype raised = Exception ustr | NonException ustr

text \<open>Line 187, the result of the \<open>except\<close> clause, and line 182, the result for an empty body.\<close>

definition error_result :: "ustr \<Rightarrow> ustr \<Rightarrow> result" where
  "error_result url_arg e =
     \<lparr>res_url = url_arg, res_title = [], res_keywords = [], res_summary = error_marker e,
      res_ok = False, res_freq = []\<rparr>"

definition empty_body_result :: "ustr \<Rightarrow> ustr \<Rightarrow> result" where
  "empty_body_result url_arg ttl =
     \<lparr>res_url = url_arg, res_title = ttl, res_keywords = [], res_summary = EXTRACTION_FAILED,
      res_ok = False, res_freq = []\<rparr>"

text \<open>
  Fetching and tokenising are the work of the network and of the standard library, and
  both can raise. They are parameters of the model: \<open>fetch_html\<close> gives, for a URL, the
  text of the page or what the download raises; \<open>tokens\<close> gives, for the text of a page, the
  handler calls that \<open>p.feed(html)\<close> makes or what it raises. \<open>try_block\<close> is the body of the
  \<open>try\<close> statement (lines 178 to 185): what is raised in it leaves the block.
\<close>

definition try_block ::
  "(ustr \<Rightarrow> raised + ustr) \<Rightarrow> (ustr \<Rightarrow> raised + event list) \<Rightarrow> ustr \<Rightarrow> int \<Rightarrow> int
     \<Rightarrow> raised + result" where
  "try_block fetch_html tokens url_arg max_sentences topk =
     (case fetch_html url_arg of
        Inl x \<Rightarrow> Inl x
      | Inr html \<Rightarrow>
          (case tokens html of
             Inl x \<Rightarrow> Inl x
           | Inr evs \<Rightarrow>
               (let p = feed evs; ttl = get_title p; body = get_text p in
                if body = [] then Inr (empty_body_result url_arg ttl)
                else
                  (let (kws, fr) = keyword_topk body topk;
                       summ = summarize body max_sentences
                   in Inr \<lparr>res_url = url_arg, res_title = ttl, res_keywords = join_comma kws,
                           res_summary = summ, res_ok = True, res_freq = fr\<rparr>))))"

text \<open>
  \<open>process_one\<close>: the \<open>try\<close> statement with its clause \<open>except Exception as e\<close>. The value
  \<open>Inl x\<close> says that the call raises \<open>x\<close>.
\<close>

definition process_one ::
  "(ustr \<Rightarrow> raised + ustr) \<Rightarrow> (ustr \<Rightarrow> raised + event list) \<Rightarrow> ustr \<Rightarrow> int \<Rightarrow> int
     \<Rightarrow> raised + result" where
  "process_one fetch_html tokens url_arg max_sentences topk =
     (case try_block fetch_html tokens url_arg max_sentences topk of
        Inl (Exception e) \<Rightarrow> Inr (error_result url_arg e)
      | Inl (NonException n) \<Rightarrow> Inl (NonException n)
      | Inr r \<Rightarrow> Inr r)"

text \<open>
  Line 210: one call of \<open>process_one\<close> for each URL, in order; a call that raises ends the
  list comprehension.
\<close>

fun process_all ::
  "(ustr \<Rightarrow> raised + ustr) \<Rightarrow> (ustr \<Rightarrow> raised + event list) \<Rightarrow> ustr list \<Rightarrow> int \<Rightarrow> int
     \<Rightarrow> raised + result list" where
  "process_all fetch_html tokens [] max_sentences topk = Inr []"
| "process_all fetch_html tokens (x # xs) max_sentences topk =
     (case process_one fetch_html tokens x max_sentences topk of
        Inl e \<Rightarrow> Inl e
      | Inr r \<Rightarrow>
          (case process_all fetch_html tokens xs max_sentences topk of
             Inl e \<Rightarrow> Inl e
           | Inr rs \<Rightarrow> Inr (r # rs)))"

text \<open>
  \<open>interrupted fetch_html tokens x\<close>: for the URL \<open>x\<close>, the download or the parser raises
  an exception that is no \<open>Exception\<close>.
\<close>

fun non_exception :: "raised \<Rightarrow> bool" where
  "non_exception (Exception e) = False"
| "non_exception (NonException n) = True"

definition interrupted ::
  "(ustr \<Rightarrow> raised + ustr) \<Rightarrow> (ustr \<Rightarrow> raised + event list) \<Rightarrow> ustr \<Rightarrow> bool" where
  "interrupted fetch_html tokens x =
     (case fetch_html x of
        Inl r \<Rightarrow> non_exception r
      | Inr html \<Rightarrow> (case tokens html of Inl r \<Rightarrow> non_exception r | Inr evs \<Rightarrow> False))"

section \<open>Inputs of the worked examples\<close>

definition cats_text :: ustr where
  "cats_text = u ''Cats are mammals. Dogs are mammals too. Cats and dogs are pets.''"

text \<open>
  \<open><p>before</p><div id="content"><p>inside</p></div><p>after</p>\<close>: a page with a content
  container and a paragraph on either side of it.
\<close>

definition stray_page :: "event list" where
  "stray_page =
    [StartTag (u ''p'') [], Data (u ''before''), EndTag (u ''p''),
     StartTag (u ''div'') [(u ''id'', Some (u ''content''))],
     StartTag (u ''p'') [], Data (u ''inside''), EndTag (u ''p''),
     EndTag (u ''div''),
     StartTag (u ''p'') [], Data (u ''after''), EndTag (u ''p'')]"

text \<open>
  \<open><div class="navbox"><div>first</div><p>leak</p></div>\<close>: a navigation box with a plain
  \<open>div\<close> and a paragraph in it.
\<close>

definition navbox_page :: "event list" where
  "navbox_page =
    [StartTag (u ''div'') [(u ''class'', Some (u ''navbox''))],
     StartTag (u ''div'') [], Data (u ''first''), EndTag (u ''div''),
     StartTag (u ''p'') [], Data (u ''leak''), EndTag (u ''p''),
     EndTag (u ''div'')]"

text \<open>
  \<open><p><script/>var x=1;</script>hello</p>\<close>: the parser of the standard library reads
  \<open><script/>\<close> as an empty element and calls \<open>handle_starttag\<close> and \<open>handle_endtag\<close> for it
  at once, so the text behind it arrives as the data of the paragraph.
\<close>

definition self_closing_page :: "event list" where
  "self_closing_page =
    [StartTag (u ''p'') [],
     StartTag (u ''script'') [], EndTag (u ''script''),
     Data (u ''var x=1;''), EndTag (u ''script''),
     Data (u ''hello''), EndTag (u ''p'')]"

text \<open>
  The inside of \<open><table class="wikitable">\<dots></table>\<close>, with a nested table that is opened
  and closed in it.
\<close>

definition table_body :: "event list" where
  "table_body =
    [StartTag (u ''p'') [], Data (u ''cell''), EndTag (u ''p''),
     StartTag (u ''table'') [], Data (u ''inner''), EndTag (u ''table''),
     StartTag (u ''title'') [], Data (u ''more''), EndTag (u ''title'')]"

text \<open>
  A batch of three URLs: the download of the first times out, the parser
  fails on the page of the second, and the page of the third has a title and no paragraph.
\<close>

definition sample_fetch :: "ustr \<Rightarrow> raised + ustr" where
  "sample_fetch x = (if x = u ''a'' then Inl (Exception (u ''timed out'')) else Inr x)"

definition sample_tokens :: "ustr \<Rightarrow> raised + event list" where
  "sample_tokens html =
     (if html = u ''b'' then Inl (Exception (u ''bad markup''))
      else Inr [StartTag (u ''title'') [], Data (u ''Home''), EndTag (u ''title'')])"

text \<open>A download that is interrupted from the keyboard.\<close>

definition interrupted_fetch :: "ustr \<Rightarrow> raised + ustr" where
  "interrupted_fetch x = Inl (NonException (u ''KeyboardInterrupt''))"

section \<open>Regions of a page\<close>

text \<open>
  \<open>inside_table d evs\<close>: the calls \<open>evs\<close> follow the start tag of a table and stay inside
  that table, \<open>d\<close> further tables being open before \<open>evs\<close>: no end tag of a table in \<open>evs\<close>
  closes more tables than were opened after the first one.
\<close>

fun inside_table :: "nat \<Rightarrow> event list \<Rightarrow> bool" where
  "inside_table d [] = True"
| "inside_table d (StartTag t a # es) = inside_table (if t = u ''table'' then Suc d else d) es"
| "inside_table d (EndTag t # es) =
     (if t = u ''table'' then 0 < d \<and> inside_table (d - 1) es else inside_table d es)"
| "inside_table d (Data x # es) = inside_table d es"

text \<open>
  The relation between the two trackers of the content region: \<open>in_content\<close> holds exactly
  when the depth is positive.
\<close>

definition region_inv :: "parser \<Rightarrow> bool" where
  "region_inv st \<longleftrightarrow> (if in_content st then 0 < content_div_depth st else content_div_depth st = 0)"

section \<open>Footnote spans\<close>

text \<open>
  \<open>has_span s\<close>: somewhere in \<open>s\<close> the pattern \<open>\[[^\]]+\]\<close> matches, that is an opening
  bracket is followed by one or more characters other than \<open>]\<close> and then by \<open>]\<close>.
\<close>

fun has_span :: "ustr \<Rightarrow> bool" where
  "has_span [] = False"
| "has_span (c # cs) =
     ((c = LB \<and> takeWhile (\<lambda>x. x \<noteq> RB) cs \<noteq> [] \<and> dropWhile (\<lambda>x. x \<noteq> RB) cs \<noteq> [])
      \<or> has_span cs)"

text \<open>
  \<open>no_open pre\<close>: no match of the pattern starts in \<open>pre\<close> when an opening bracket follows
  \<open>pre\<close>, that is every opening bracket in \<open>pre\<close> has a closing bracket right behind it.
\<close>

fun no_open :: "ustr \<Rightarrow> bool" where
  "no_open [] = True"
| "no_open [c] = (c \<noteq> LB)"
| "no_open (c # d # cs) = ((c \<noteq> LB \<or> d = RB) \<and> no_open (d # cs))"

section \<open>The summary of the example\<close>

text \<open>
  C1, as the specification states it: with \<open>max_sentences = 2\<close> the summary of the example
  would be its first and third sentence. The code returns another string.
\<close>

theorem C1_counterexample:
  "summarize cats_text 2 \<noteq> u ''Cats are mammals. Cats and dogs are pets.''"
  by code_simp

text \<open>
  C1, amended: the three sentences of the example score 4, 5 and 5 (the second sentence gains
  from the token \<open>too\<close>, which is no stopword), so the two sentences with the highest scores
  are the second and the third, and the summary is these two in the order of the text.
\<close>

theorem C1_summary_of_example:
  "map (sentence_score (word_freq cats_text)) (split_sentences cats_text) = [4, 5, 5] \<and>
   top_idx cats_text 2 = [1, 2] \<and>
   summarize cats_text 2 = u ''Dogs are mammals too. Cats and dogs are pets.''"
  by code_simp

section \<open>What the handlers change\<close>

lemma tag_neq [simp]:
  "u ''table'' \<noteq> u ''script''" "u ''table'' \<noteq> u ''style''"
  by (simp_all add: u_def)

lemma excluded_table: "excluded (u ''table'') a"
  by (simp add: excluded_def)

lemma starttag_skip:
  "t = u ''script'' \<or> t = u ''style'' \<Longrightarrow>
   handle_starttag st t a = st\<lparr>skip_stack := skip_stack st @ [t]\<rparr>"
  unfolding handle_starttag_def by simp

lemma starttag_excluded:
  "t \<noteq> u ''script'' \<Longrightarrow> t \<noteq> u ''style'' \<Longrightarrow> excluded t a \<Longrightarrow>
   handle_starttag st t a = st\<lparr>exclude_stack := exclude_stack st @ [t]\<rparr>"
  unfolding handle_starttag_def by simp

lemma enter_div_keeps:
  "exclude_stack (enter_div st a) = exclude_stack st \<and> skip_stack (enter_div st a) = skip_stack st \<and>
   title_parts (enter_div st a) = title_parts st \<and> paras (enter_div st a) = paras st"
  unfolding enter_div_def by simp

lemma starttag_plain:
  assumes "t \<noteq> u ''script''" "t \<noteq> u ''style''" "\<not> excluded t a"
  shows "exclude_stack (handle_starttag st t a) = exclude_stack st \<and>
         skip_stack (handle_starttag st t a) = skip_stack st \<and>
         title_parts (handle_starttag st t a) = title_parts st \<and>
         paras (handle_starttag st t a) = paras st"
proof -
  define st1 where "st1 = (if t = u ''div'' then enter_div st a else st)"
  define st2 where "st2 = (if t = u ''p'' \<and> (in_content st1 \<or> content_div_depth st1 = 0)
                       \<and> exclude_stack st1 = [] then st1\<lparr>in_p := True\<rparr> else st1)"
  have h: "handle_starttag st t a = (if t = u ''title'' then st2\<lparr>in_title := True\<rparr> else st2)"
    unfolding handle_starttag_def st1_def st2_def using assms by (simp add: Let_def)
  have k1: "exclude_stack st1 = exclude_stack st \<and> skip_stack st1 = skip_stack st \<and>
            title_parts st1 = title_parts st \<and> paras st1 = paras st"
    unfolding st1_def using enter_div_keeps [of st a] by simp
  have k2: "exclude_stack st2 = exclude_stack st1 \<and> skip_stack st2 = skip_stack st1 \<and>
            title_parts st2 = title_parts st1 \<and> paras st2 = paras st1"
    unfolding st2_def by simp
  show ?thesis unfolding h using k1 k2 by simp
qed

lemma starttag_table:
  "handle_starttag st (u ''table'') a = st\<lparr>exclude_stack := exclude_stack st @ [u ''table'']\<rparr>"
  by (rule starttag_excluded) (simp_all add: excluded_table)

lemma starttag_collect:
  "title_parts (handle_starttag st t a) = title_parts st \<and> paras (handle_starttag st t a) = paras st"
proof (cases "t = u ''script'' \<or> t = u ''style''")
  case True
  then show ?thesis by (simp add: starttag_skip)
next
  case False
  then show ?thesis
    using starttag_excluded [of t a st] starttag_plain [of t a st] by (cases "excluded t a") simp_all
qed

lemma starttag_exclude_stack:
  "exclude_stack (handle_starttag st t a) = exclude_stack st \<or>
   exclude_stack (handle_starttag st t a) = exclude_stack st @ [t]"
proof (cases "t = u ''script'' \<or> t = u ''style''")
  case True
  then show ?thesis by (simp add: starttag_skip)
next
  case False
  then show ?thesis
    using starttag_excluded [of t a st] starttag_plain [of t a st] by (cases "excluded t a") simp_all
qed

lemma leave_div_keeps:
  "exclude_stack (leave_div st) = exclude_stack st \<and> skip_stack (leave_div st) = skip_stack st \<and>
   title_parts (leave_div st) = title_parts st \<and> paras (leave_div st) = paras st"
  unfolding leave_div_def by (simp add: Let_def)

lemma endtag_skip:
  "t = u ''script'' \<or> t = u ''style'' \<Longrightarrow>
   handle_endtag st t =
     (if skip_stack st \<noteq> [] \<and> last (skip_stack st) = t
      then st\<lparr>skip_stack := butlast (skip_stack st)\<rparr> else st)"
  unfolding handle_endtag_def by simp

lemma endtag_plain:
  assumes "t \<noteq> u ''script''" "t \<noteq> u ''style''"
  shows "exclude_stack (handle_endtag st t) =
           (if exclude_stack st \<noteq> [] \<and> last (exclude_stack st) = t
            then butlast (exclude_stack st) else exclude_stack st) \<and>
         skip_stack (handle_endtag st t) = skip_stack st \<and>
         title_parts (handle_endtag st t) = title_parts st \<and>
         paras (handle_endtag st t) = paras st"
proof -
  define st1 where "st1 = (if exclude_stack st \<noteq> [] \<and> last (exclude_stack st) = t
                    then st\<lparr>exclude_stack := butlast (exclude_stack st)\<rparr> else st)"
  define st2 where "st2 = (if in_content st1 \<and> t = u ''div'' then leave_div st1 else st1)"
  define st3 where "st3 = (if t = u ''p'' then st2\<lparr>in_p := False\<rparr> else st2)"
  have h: "handle_endtag st t = (if t = u ''title'' then st3\<lparr>in_title := False\<rparr> else st3)"
    unfolding handle_endtag_def st1_def st2_def st3_def using assms by (simp add: Let_def)
  have k1: "exclude_stack st1 = (if exclude_stack st \<noteq> [] \<and> last (exclude_stack st) = t
            then butlast (exclude_stack st) else exclude_stack st) \<and> skip_stack st1 = skip_stack st \<and>
            title_parts st1 = title_parts st \<and> paras st1 = paras st"
    unfolding st1_def by simp
  have k2: "exclude_stack st2 = exclude_stack st1 \<and> skip_stack st2 = skip_stack st1 \<and>
            title_parts st2 = title_parts st1 \<and> paras st2 = paras st1"
    unfolding st2_def using leave_div_keeps [of st1] by simp
  have k3: "exclude_stack st3 = exclude_stack st2 \<and> skip_stack st3 = skip_stack st2 \<and>
            title_parts st3 = title_parts st2 \<and> paras st3 = paras st2"
    unfolding st3_def by simp
  show ?thesis unfolding h using k1 k2 k3 by simp
qed

lemma endtag_collect:
  "title_parts (handle_endtag st t) = title_parts st \<and> paras (handle_endtag st t) = paras st"
proof (cases "t = u ''script'' \<or> t = u ''style''")
  case True
  then show ?thesis by (simp add: endtag_skip)
next
  case False
  then show ?thesis using endtag_plain [of t st] by simp
qed

lemma endtag_exclude_stack:
  "exclude_stack (handle_endtag st t) = exclude_stack st \<or>
   (exclude_stack st \<noteq> [] \<and> last (exclude_stack st) = t \<and>
    exclude_stack (handle_endtag st t) = butlast (exclude_stack st))"
proof (cases "t = u ''script'' \<or> t = u ''style''")
  case True
  then show ?thesis by (simp add: endtag_skip)
next
  case False
  then show ?thesis using endtag_plain [of t st] by simp
qed

lemma data_excluded: "exclude_stack st \<noteq> [] \<Longrightarrow> handle_data st d = st"
  by (simp add: handle_data_def)

lemma data_skipped: "skip_stack st \<noteq> [] \<Longrightarrow> handle_data st d = st"
  by (simp add: handle_data_def)

lemma count_butlast: "xs \<noteq> [] \<Longrightarrow> count_list xs x = count_list (butlast xs) x + (if last xs = x then 1 else 0)"
  by (cases xs rule: rev_cases) auto

section \<open>Tables\<close>

lemma inside_table_collect:
  "inside_table d evs \<Longrightarrow> d < count_list (exclude_stack st) (u ''table'') \<Longrightarrow>
   title_parts (feed_from st evs) = title_parts st \<and> paras (feed_from st evs) = paras st"
proof (induction evs arbitrary: d st)
  case Nil
  then show ?case by (simp add: feed_from_def)
next
  case (Cons e evs)
  show ?case
  proof (cases e)
    case (StartTag t a)
    let ?st = "handle_starttag st t a"
    have step: "feed_from st (e # evs) = feed_from ?st evs"
      by (simp add: feed_from_def StartTag)
    show ?thesis
    proof (cases "t = u ''table''")
      case True
      have "inside_table (Suc d) evs" using Cons.prems(1) StartTag True by simp
      moreover have "Suc d < count_list (exclude_stack ?st) (u ''table'')"
        using Cons.prems(2) True by (simp add: starttag_table)
      ultimately show ?thesis
        using Cons.IH [of "Suc d" ?st] step starttag_collect [of st t a] by simp
    next
      case False
      have "inside_table d evs" using Cons.prems(1) StartTag False by simp
      moreover have "d < count_list (exclude_stack ?st) (u ''table'')"
        using Cons.prems(2) False starttag_exclude_stack [of st t a] by auto
      ultimately show ?thesis
        using Cons.IH [of d ?st] step starttag_collect [of st t a] by simp
    qed
  next
    case (EndTag t)
    let ?st = "handle_endtag st t"
    have step: "feed_from st (e # evs) = feed_from ?st evs"
      by (simp add: feed_from_def EndTag)
    show ?thesis
    proof (cases "t = u ''table''")
      case True
      have d: "0 < d" "inside_table (d - 1) evs" using Cons.prems(1) EndTag True by simp_all
      have "d - 1 < count_list (exclude_stack ?st) (u ''table'')"
        using Cons.prems(2) d(1) endtag_exclude_stack [of st t] count_butlast [of "exclude_stack st" "u ''table''"]
        by (auto split: if_splits)
      then show ?thesis
        using Cons.IH [of "d - 1" ?st] d(2) step endtag_collect [of st t] by simp
    next
      case False
      have "inside_table d evs" using Cons.prems(1) EndTag False by simp
      moreover have "d < count_list (exclude_stack ?st) (u ''table'')"
        using Cons.prems(2) False endtag_exclude_stack [of st t] count_butlast [of "exclude_stack st" "u ''table''"]
        by (auto split: if_splits)
      ultimately show ?thesis
        using Cons.IH [of d ?st] step endtag_collect [of st t] by simp
    qed
  next
    case (Data x)
    have ne: "exclude_stack st \<noteq> []" using Cons.prems(2) by auto
    have step: "feed_from st (e # evs) = feed_from st evs"
      by (simp add: feed_from_def Data data_excluded [OF ne])
    show ?thesis using Cons.IH [of d st] Cons.prems Data step by simp
  qed
qed

text \<open>
  C10: every start tag of a table, whatever its attributes, is pushed on the exclude stack
  (the first test of the chain answers for the tag \<open>table\<close>, so the later test of its classes
  is never reached), and no text is collected from the calls that follow while the table is
  open.
\<close>

theorem C10_table_always_excluded:
  assumes "inside_table 0 evs"
  shows "excluded (u ''table'') a \<and>
         handle_starttag st (u ''table'') a = st\<lparr>exclude_stack := exclude_stack st @ [u ''table'']\<rparr> \<and>
         title_parts (feed_from st (StartTag (u ''table'') a # evs)) = title_parts st \<and>
         paras (feed_from st (StartTag (u ''table'') a # evs)) = paras st"
proof -
  let ?st = "handle_starttag st (u ''table'') a"
  have "0 < count_list (exclude_stack ?st) (u ''table'')"
    by (simp add: starttag_table)
  then have "title_parts (feed_from ?st evs) = title_parts ?st \<and> paras (feed_from ?st evs) = paras ?st"
    using inside_table_collect [OF assms] by blast
  moreover have "feed_from st (StartTag (u ''table'') a # evs) = feed_from ?st evs"
    by (simp add: feed_from_def)
  ultimately show ?thesis
    using starttag_collect [of st "u ''table''" a] excluded_table starttag_table by simp
qed

theorem C10_witness:
  "inside_table 0 table_body \<and>
   paras (feed (StartTag (u ''table'') [(u ''class'', Some (u ''wikitable''))] # table_body)) = [] \<and>
   title_parts (feed (StartTag (u ''table'') [(u ''class'', Some (u ''wikitable''))] # table_body)) = []"
proof -
  have h: "inside_table 0 table_body"
    by (simp add: table_body_def u_def)
  show ?thesis
    using h C10_table_always_excluded [OF h, of "[(u ''class'', Some (u ''wikitable''))]" init]
    by (simp add: feed_def init_def)
qed

section \<open>Script and style elements\<close>

text \<open>
  C8, as the specification states it, for every HTML input: the text that follows
  \<open><script/>\<close> up to \<open></script>\<close> is collected into the body.
\<close>

theorem C8_counterexample:
  "get_text (feed self_closing_page) = u ''var x=1; hello''"
  by code_simp

text \<open>
  C8, amended: a \<open>script\<close> or \<open>style\<close> element whose text reaches the handlers between the
  calls for its start tag and its end tag (the element written with a start tag of its own)
  changes nothing but the skip stack. Its start tag pushes the tag there, its text leaves
  the parser as it is, and its end tag pops the tag: the parser is then in the state it had
  before the element, so the title, the body and the trackers of the exclude and content
  regions of a page are those of the page without the element, also when the element is
  inside the content container.
\<close>

theorem C8_script_style_skipped:
  assumes "tag = u ''script'' \<or> tag = u ''style''"
  shows "feed_from st (StartTag tag a # map Data ds) = st\<lparr>skip_stack := skip_stack st @ [tag]\<rparr> \<and>
         feed_from st (StartTag tag a # map Data ds @ [EndTag tag]) = st \<and>
         feed (pre @ StartTag tag a # map Data ds @ EndTag tag # post) = feed (pre @ post)"
proof -
  have inner: "skip_stack s \<noteq> [] \<Longrightarrow> foldl handle s (map Data ds) = s" for s
    by (induction ds) (simp_all add: data_skipped)
  have start: "handle_starttag s tag a = s\<lparr>skip_stack := skip_stack s @ [tag]\<rparr>" for s
    using assms by (rule starttag_skip)
  have open_el: "foldl handle s (StartTag tag a # map Data ds) = s\<lparr>skip_stack := skip_stack s @ [tag]\<rparr>" for s
    by (simp add: start inner)
  have close_el: "handle_endtag (s\<lparr>skip_stack := skip_stack s @ [tag]\<rparr>) tag = s" for s
    using assms by (simp add: endtag_skip)
  have whole: "foldl handle s (StartTag tag a # map Data ds @ [EndTag tag]) = s" for s
  proof -
    have "foldl handle s (StartTag tag a # map Data ds @ [EndTag tag]) =
          handle_endtag (foldl handle s (StartTag tag a # map Data ds)) tag"
      by simp
    then show ?thesis by (simp only: open_el close_el)
  qed
  have "foldl handle init (pre @ StartTag tag a # map Data ds @ EndTag tag # post) =
        foldl handle (foldl handle (foldl handle init pre) (StartTag tag a # map Data ds @ [EndTag tag])) post"
    by simp
  then have "foldl handle init (pre @ StartTag tag a # map Data ds @ EndTag tag # post) =
        foldl handle init (pre @ post)"
    by (simp only: whole foldl_append)
  then show ?thesis
    using open_el [of st] whole [of st] by (simp add: feed_def feed_from_def)
qed

theorem C8_witness:
  "feed [StartTag (u ''div'') [(u ''id'', Some (u ''content''))], StartTag (u ''p'') [],
         StartTag (u ''script'') [], Data (u ''var x = 1;''), EndTag (u ''script''),
         Data (u ''hello''), EndTag (u ''p''), EndTag (u ''div'')] =
   feed [StartTag (u ''div'') [(u ''id'', Some (u ''content''))], StartTag (u ''p'') [],
         Data (u ''hello''), EndTag (u ''p''), EndTag (u ''div'')]"
proof -
  have h: "u ''script'' = u ''script'' \<or> u ''script'' = u ''style''" by simp
  show ?thesis
    using C8_script_style_skipped [OF h, of init "[]" "[u ''var x = 1;'']"
        "[StartTag (u ''div'') [(u ''id'', Some (u ''content''))], StartTag (u ''p'') []]"
        "[Data (u ''hello''), EndTag (u ''p''), EndTag (u ''div'')]"]
    by simp
qed

section \<open>Paragraphs outside the content container\<close>

text \<open>
  In every state the parser reaches, \<open>in_content\<close> holds exactly when \<open>content_div_depth\<close>
  is positive, and the depth is never negative. So the test
  \<open>in_content or content_div_depth == 0\<close> of the source holds in every reachable state.
\<close>

lemma region_inv_eq:
  "in_content s' = in_content s \<Longrightarrow> content_div_depth s' = content_div_depth s \<Longrightarrow>
   region_inv s \<Longrightarrow> region_inv s'"
  by (simp add: region_inv_def)

lemma region_inv_enter_div: "region_inv st \<Longrightarrow> region_inv (enter_div st a)"
  unfolding region_inv_def enter_div_def by (simp split: if_splits)

lemma region_inv_leave_div: "region_inv st \<Longrightarrow> region_inv (leave_div st)"
  unfolding region_inv_def leave_div_def by (simp add: Let_def split: if_splits)

lemma region_inv_starttag: 
  assumes "region_inv st"
  shows "region_inv (handle_starttag st t a)"
proof (cases "t = u ''script'' \<or> t = u ''style''")
  case True
  then show ?thesis using assms by (simp add: starttag_skip region_inv_def)
next
  case False
  show ?thesis
  proof (cases "excluded t a")
    case True
    then show ?thesis using False assms by (simp add: starttag_excluded region_inv_def)
  next
    case ex: False
    define st1 where "st1 = (if t = u ''div'' then enter_div st a else st)"
    define st2 where "st2 = (if t = u ''p'' \<and> (in_content st1 \<or> content_div_depth st1 = 0)
                         \<and> exclude_stack st1 = [] then st1\<lparr>in_p := True\<rparr> else st1)"
    have h: "handle_starttag st t a = (if t = u ''title'' then st2\<lparr>in_title := True\<rparr> else st2)"
      unfolding handle_starttag_def st1_def st2_def using False ex by (simp add: Let_def)
    have "region_inv st1" unfolding st1_def using assms by (simp add: region_inv_enter_div)
    then have "region_inv st2" unfolding st2_def by (simp add: region_inv_def)
    then show ?thesis unfolding h by (simp add: region_inv_def)
  qed
qed

lemma region_inv_endtag:
  assumes "region_inv st"
  shows "region_inv (handle_endtag st t)"
proof (cases "t = u ''script'' \<or> t = u ''style''")
  case True
  then show ?thesis using assms by (simp add: endtag_skip region_inv_def)
next
  case False
  define st1 where "st1 = (if exclude_stack st \<noteq> [] \<and> last (exclude_stack st) = t
                    then st\<lparr>exclude_stack := butlast (exclude_stack st)\<rparr> else st)"
  define st2 where "st2 = (if in_content st1 \<and> t = u ''div'' then leave_div st1 else st1)"
  define st3 where "st3 = (if t = u ''p'' then st2\<lparr>in_p := False\<rparr> else st2)"
  have h: "handle_endtag st t = (if t = u ''title'' then st3\<lparr>in_title := False\<rparr> else st3)"
    unfolding handle_endtag_def st1_def st2_def st3_def using False by (simp add: Let_def)
  have "region_inv st1" unfolding st1_def using assms by (simp add: region_inv_def)
  then have "region_inv st2" unfolding st2_def by (simp add: region_inv_leave_div)
  then have "region_inv st3" unfolding st3_def by (simp add: region_inv_def)
  then show ?thesis unfolding h by (simp add: region_inv_def)
qed

lemma region_inv_data: "region_inv st \<Longrightarrow> region_inv (handle_data st d)"
  unfolding handle_data_def by (simp add: Let_def region_inv_def)

lemma region_inv_feed_from: "region_inv st \<Longrightarrow> region_inv (feed_from st evs)"
proof (induction evs arbitrary: st)
  case Nil
  then show ?case by (simp add: feed_from_def)
next
  case (Cons e evs)
  have "region_inv (handle st e)"
    using Cons.prems by (cases e) (simp_all add: region_inv_starttag region_inv_endtag region_inv_data)
  then have "region_inv (feed_from (handle st e) evs)" by (rule Cons.IH)
  then show ?case by (simp add: feed_from_def)
qed

lemma content_guard_always_holds:
  "in_content (feed evs) \<or> content_div_depth (feed evs) = 0"
proof -
  have "region_inv init" by (simp add: region_inv_def init_def)
  then have "region_inv (feed evs)" unfolding feed_def by (rule region_inv_feed_from)
  then show ?thesis by (simp add: region_inv_def split: if_splits)
qed

text \<open>
  C2 at a page that has a content container: the paragraphs before and after the container
  are collected with the one inside it.
\<close>

theorem C2_stray_paragraphs_collected:
  "get_text (feed stray_page) = u ''before inside after''"
  by code_simp

section \<open>Elements nested in an excluded region\<close>

text \<open>
  C3 at a navigation box that holds a plain \<open>div\<close>: the end tag of the inner \<open>div\<close> pops the
  entry of the box from the exclude stack, and the paragraph that follows, still inside the
  box, is collected.
\<close>

theorem C3_nested_div_ends_exclusion:
  "exclude_stack (feed (take 4 navbox_page)) = [] \<and> get_text (feed navbox_page) = u ''leak''"
  by code_simp

section \<open>One document\<close>

lemma process_one_returns:
  "\<not> interrupted fetch_html tokens x \<Longrightarrow> \<exists>r. process_one fetch_html tokens x m k = Inr r"
  unfolding interrupted_def process_one_def try_block_def
  by (auto simp: Let_def split: sum.splits raised.splits prod.splits)

lemma process_one_propagates:
  "interrupted fetch_html tokens x \<Longrightarrow> \<exists>n. process_one fetch_html tokens x m k = Inl (NonException n)"
  unfolding interrupted_def process_one_def try_block_def
  by (auto simp: Let_def split: sum.splits raised.splits prod.splits)

lemma process_all_returns:
  "(\<forall>y \<in> set urls. \<not> interrupted fetch_html tokens y) \<Longrightarrow>
   \<exists>rs. process_all fetch_html tokens urls m k = Inr rs \<and> length rs = length urls \<and>
        (\<forall>i < length urls. process_one fetch_html tokens (urls ! i) m k = Inr (rs ! i))"
proof (induction urls)
  case Nil
  then show ?case by simp
next
  case (Cons x xs)
  obtain r where r: "process_one fetch_html tokens x m k = Inr r"
    using Cons.prems process_one_returns [of fetch_html tokens x m k] by auto
  obtain rs where rs: "process_all fetch_html tokens xs m k = Inr rs" "length rs = length xs"
      "\<forall>i < length xs. process_one fetch_html tokens (xs ! i) m k = Inr (rs ! i)"
    using Cons.IH Cons.prems by auto
  have "process_all fetch_html tokens (x # xs) m k = Inr (r # rs)"
    by (simp add: r rs(1))
  moreover have "\<forall>i < length (x # xs). process_one fetch_html tokens ((x # xs) ! i) m k = Inr ((r # rs) ! i)"
  proof (intro allI impI)
    fix i assume "i < length (x # xs)"
    then show "process_one fetch_html tokens ((x # xs) ! i) m k = Inr ((r # rs) ! i)"
      using r rs(3) by (cases i) simp_all
  qed
  ultimately show ?case using rs(2) by simp
qed

text \<open>
  C9, as the specification states it: \<open>process_one\<close> never raises. An exception that is no
  \<open>Exception\<close>, here a \<open>KeyboardInterrupt\<close> during the download, leaves \<open>process_one\<close>.
\<close>

theorem C9_counterexample:
  "process_one interrupted_fetch sample_tokens (u ''a'') 3 5 =
     Inl (NonException (u ''KeyboardInterrupt''))"
  by (simp add: process_one_def try_block_def interrupted_fetch_def)

text \<open>
  C9, amended: an exception of class \<open>Exception\<close> raised by the download or by the parser is
  caught and gives a result that is not ok, with an empty title, no keywords and the error
  marker around the message of the exception as its summary; a page with an empty body
  gives a result that is not ok, with no keywords and the fixed marker as its summary.
  \<open>process_one\<close> returns whenever neither step raises an exception outside class
  \<open>Exception\<close>, and raises that exception otherwise. In a batch where no such exception
  comes up, every URL has its result, which is the result of \<open>process_one\<close> for that URL
  alone.
\<close>

theorem C9_process_one_failures:
  "(fetch_html x = Inl (Exception e) \<longrightarrow>
      process_one fetch_html tokens x m k = Inr (error_result x e) \<and>
      res_ok (error_result x e) = False \<and> res_title (error_result x e) = [] \<and>
      res_keywords (error_result x e) = [] \<and> res_summary (error_result x e) = error_marker e) \<and>
   (fetch_html x = Inr html \<and> tokens html = Inl (Exception e) \<longrightarrow>
      process_one fetch_html tokens x m k = Inr (error_result x e)) \<and>
   (fetch_html x = Inr html \<and> tokens html = Inr evs \<and> get_text (feed evs) = [] \<longrightarrow>
      process_one fetch_html tokens x m k = Inr (empty_body_result x (get_title (feed evs))) \<and>
      res_ok (empty_body_result x (get_title (feed evs))) = False \<and>
      res_keywords (empty_body_result x (get_title (feed evs))) = [] \<and>
      res_summary (empty_body_result x (get_title (feed evs))) = EXTRACTION_FAILED) \<and>
   (\<not> interrupted fetch_html tokens x \<longrightarrow> (\<exists>r. process_one fetch_html tokens x m k = Inr r)) \<and>
   (interrupted fetch_html tokens x \<longrightarrow>
      (\<exists>n. process_one fetch_html tokens x m k = Inl (NonException n))) \<and>
   ((\<forall>y \<in> set urls. \<not> interrupted fetch_html tokens y) \<longrightarrow>
      (\<exists>rs. process_all fetch_html tokens urls m k = Inr rs \<and> length rs = length urls \<and>
            (\<forall>i < length urls. process_one fetch_html tokens (urls ! i) m k = Inr (rs ! i))))"
proof -
  have a: "fetch_html x = Inl (Exception e) \<longrightarrow>
      process_one fetch_html tokens x m k = Inr (error_result x e)"
    by (simp add: process_one_def try_block_def)
  have b: "fetch_html x = Inr html \<and> tokens html = Inl (Exception e) \<longrightarrow>
      process_one fetch_html tokens x m k = Inr (error_result x e)"
    by (simp add: process_one_def try_block_def)
  have c: "fetch_html x = Inr html \<and> tokens html = Inr evs \<and> get_text (feed evs) = [] \<longrightarrow>
      process_one fetch_html tokens x m k = Inr (empty_body_result x (get_title (feed evs)))"
    by (simp add: process_one_def try_block_def Let_def)
  have d: "\<not> interrupted fetch_html tokens x \<longrightarrow> (\<exists>r. process_one fetch_html tokens x m k = Inr r)"
    using process_one_returns [of fetch_html tokens x m k] by blast
  have e: "interrupted fetch_html tokens x \<longrightarrow>
      (\<exists>n. process_one fetch_html tokens x m k = Inl (NonException n))"
    using process_one_propagates [of fetch_html tokens x m k] by blast
  have f: "(\<forall>y \<in> set urls. \<not> interrupted fetch_html tokens y) \<longrightarrow>
      (\<exists>rs. process_all fetch_html tokens urls m k = Inr rs \<and> length rs = length urls \<and>
            (\<forall>i < length urls. process_one fetch_html tokens (urls ! i) m k = Inr (rs ! i)))"
    using process_all_returns [of urls fetch_html tokens m k] by blast
  show ?thesis
    using a b c d e f by (simp add: error_result_def empty_body_result_def)
qed

theorem C9_witness:
  "process_one sample_fetch sample_tokens (u ''a'') 3 5 = Inr (error_result (u ''a'') (u ''timed out'')) \<and>
   process_one sample_fetch sample_tokens (u ''b'') 3 5 = Inr (error_result (u ''b'') (u ''bad markup'')) \<and>
   process_one sample_fetch sample_tokens (u ''c'') 3 5 = Inr (empty_body_result (u ''c'') (u ''Home'')) \<and>
   process_all sample_fetch sample_tokens [u ''a'', u ''b'', u ''c''] 3 5 =
     Inr [error_result (u ''a'') (u ''timed out''), error_result (u ''b'') (u ''bad markup''),
          empty_body_result (u ''c'') (u ''Home'')]"
proof -
  let ?page = "[StartTag (u ''title'') [], Data (u ''Home''), EndTag (u ''title'')]"
  have ne: "u ''b'' \<noteq> u ''a''" "u ''c'' \<noteq> u ''a''" "u ''c'' \<noteq> u ''b''"
    by (simp_all add: u_def)
  have fa: "sample_fetch (u ''a'') = Inl (Exception (u ''timed out''))"
    by (simp add: sample_fetch_def)
  have fb: "sample_fetch (u ''b'') = Inr (u ''b'') \<and> sample_tokens (u ''b'') = Inl (Exception (u ''bad markup''))"
    using ne by (simp add: sample_fetch_def sample_tokens_def)
  have body: "get_text (feed ?page) = []" by code_simp
  have ttl: "get_title (feed ?page) = u ''Home''" by code_simp
  have fc: "sample_fetch (u ''c'') = Inr (u ''c'') \<and> sample_tokens (u ''c'') = Inr ?page \<and>
            get_text (feed ?page) = []"
    using ne body by (simp add: sample_fetch_def sample_tokens_def)
  have ra: "process_one sample_fetch sample_tokens (u ''a'') 3 5 = Inr (error_result (u ''a'') (u ''timed out''))"
    using fa C9_process_one_failures [of sample_fetch "u ''a''" "u ''timed out''" sample_tokens 3 5]
    by blast
  have rb: "process_one sample_fetch sample_tokens (u ''b'') 3 5 = Inr (error_result (u ''b'') (u ''bad markup''))"
    using fb C9_process_one_failures [of sample_fetch "u ''b''" "u ''bad markup''" sample_tokens 3 5 "u ''b''"]
    by blast
  have rc: "process_one sample_fetch sample_tokens (u ''c'') 3 5 = Inr (empty_body_result (u ''c'') (u ''Home''))"
    using fc ttl C9_process_one_failures [of sample_fetch "u ''c''" _ sample_tokens 3 5 "u ''c''" ?page]
    by simp
  show ?thesis using ra rb rc by simp
qed

section \<open>Short texts\<close>

text \<open>
  C5: when the text has no more sentences than \<open>max_sentences\<close>, the summary is the
  sentences joined by single spaces: as it is when the budget is disabled
  (\<open>MAX_SENT_CHARS <= 0\<close>) or the joined string fits the budget, and cut to the budget, its
  last character an ellipsis, only when the joined string is longer than the budget. The
  last line is the program with its budget of 300.
\<close>

theorem C5_short_text_joined:
  assumes "int (length (split_sentences text)) \<le> m"
  shows "(M \<le> 0 \<longrightarrow> summarize_with M text m = join (split_sentences text)) \<and>
         (0 < M \<and> int (length (join (split_sentences text))) \<le> M \<longrightarrow>
            summarize_with M text m = join (split_sentences text)) \<and>
         (0 < M \<and> M < int (length (join (split_sentences text))) \<longrightarrow>
            summarize_with M text m = take (nat (M - 1)) (join (split_sentences text)) @ [ELLIPSIS] \<and>
            int (length (summarize_with M text m)) = M) \<and>
         summarize text m =
           (if length (join (split_sentences text)) \<le> 300 then join (split_sentences text)
            else take 299 (join (split_sentences text)) @ [ELLIPSIS])"
proof (cases "split_sentences text = []")
  case True
  then show ?thesis
    by (simp add: summarize_def summarize_with_def MAX_SENT_CHARS_def)
next
  case False
  then show ?thesis
    using assms
    by (auto simp add: summarize_def summarize_with_def MAX_SENT_CHARS_def Let_def py_take_def
        min_def)
qed

theorem C5_witness:
  "int (length (split_sentences cats_text)) \<le> 3 \<and>
   summarize cats_text 3 = cats_text \<and>
   summarize_with 0 cats_text 3 = cats_text \<and>
   summarize_with 10 cats_text 3 = u ''Cats are '' @ [ELLIPSIS]"
proof -
  have h: "int (length (split_sentences cats_text)) \<le> 3" by code_simp
  have j: "join (split_sentences cats_text) = cats_text" by code_simp
  have l: "length cats_text = 63" by code_simp
  have t: "take 9 cats_text = u ''Cats are ''" by code_simp
  show ?thesis
    using h C5_short_text_joined [OF h, of 0] C5_short_text_joined [OF h, of 10]
    by (simp add: j l t)
qed

section \<open>Keywords\<close>



















section \<open>Long texts\<close>

lemma sorted_distinct_filter_upt:
  assumes "sorted idx" "distinct idx" "\<forall>i \<in> set idx. i < n"
  shows "idx = filter (\<lambda>i. i \<in> set idx) [0 ..< n]"
proof (rule sorted_distinct_set_unique)
  show "sorted idx" "distinct idx" by fact+
  show "sorted (filter (\<lambda>i. i \<in> set idx) [0 ..< n])" by (simp add: sorted_wrt_filter)
  show "distinct (filter (\<lambda>i. i \<in> set idx) [0 ..< n])" by simp
  show "set idx = set (filter (\<lambda>i. i \<in> set idx) [0 ..< n])" using assms(3) by auto
qed

lemma subseq_map_nth:
  assumes "sorted idx" "distinct idx" "\<forall>i \<in> set idx. i < length xs"
  shows "subseq (map (\<lambda>i. xs ! i) idx) xs"
proof -
  have "subseq (filter (\<lambda>i. i \<in> set idx) [0 ..< length xs]) [0 ..< length xs]"
    by (rule subseq_filter_left)
  then have "subseq idx [0 ..< length xs]"
    using sorted_distinct_filter_upt [OF assms] by simp
  then have "subseq (map (\<lambda>i. xs ! i) idx) (map (\<lambda>i. xs ! i) [0 ..< length xs])"
    by (rule subseq_map)
  then show ?thesis by (simp add: map_nth)
qed

lemma py_take_set: "set (py_take n xs) \<subseteq> set xs"
  unfolding py_take_def by (auto dest: in_set_takeD)

lemma py_take_distinct: "distinct xs \<Longrightarrow> distinct (py_take n xs)"
  unfolding py_take_def by simp

lemma top_idx_props:
  "sorted (top_idx text m) \<and> distinct (top_idx text m) \<and>
   (\<forall>i \<in> set (top_idx text m). i < length (split_sentences text))"
proof -
  let ?n = "length (split_sentences text)"
  let ?sc = "map (sentence_score (word_freq text)) (split_sentences text)"
  let ?ranked = "sort_key (\<lambda>i. - int (?sc ! i)) [0 ..< ?n]"
  have t: "top_idx text m = sort (py_take m ?ranked)"
    by (simp add: top_idx_def Let_def)
  have "distinct ?ranked" by simp
  then have d: "distinct (py_take m ?ranked)" by (rule py_take_distinct)
  have "set (py_take m ?ranked) \<subseteq> set ?ranked" by (rule py_take_set)
  then have s: "\<forall>i \<in> set (py_take m ?ranked). i < ?n" by auto
  show ?thesis unfolding t using d s by simp
qed

text \<open>
  C6: when the text has more sentences than \<open>max_sentences\<close>, the indices selected are
  strictly ascending positions of the sentence list, so the selected sentences are a
  subsequence of the sentences of the text, and the summary is these sentences (each cut to
  the budget) joined in that order.
\<close>

theorem C6_summary_in_text_order:
  assumes "m < int (length (split_sentences text))"
  shows "sorted (top_idx text m) \<and> distinct (top_idx text m) \<and>
         (\<forall>i \<in> set (top_idx text m). i < length (split_sentences text)) \<and>
         chosen text m = map (\<lambda>i. split_sentences text ! i) (top_idx text m) \<and>
         subseq (chosen text m) (split_sentences text) \<and>
         summarize_with M text m =
           join (if 0 < M then map (clip M) (chosen text m) else chosen text m)"
proof -
  have p: "sorted (top_idx text m) \<and> distinct (top_idx text m) \<and>
           (\<forall>i \<in> set (top_idx text m). i < length (split_sentences text))"
    by (rule top_idx_props)
  have c: "chosen text m = map (\<lambda>i. split_sentences text ! i) (top_idx text m)"
    by (simp add: chosen_def)
  have sub: "subseq (chosen text m) (split_sentences text)"
    unfolding c using p by (intro subseq_map_nth) simp_all
  have "summarize_with M text m =
          join (if 0 < M then map (clip M) (chosen text m) else chosen text m)"
  proof (cases "split_sentences text = []")
    case True
    then have "top_idx text m = []" using p by (cases "top_idx text m") auto
    then show ?thesis using True by (simp add: summarize_with_def c)
  next
    case False
    then show ?thesis using assms by (simp add: summarize_with_def Let_def)
  qed
  then show ?thesis using p c sub by simp
qed

theorem C6_witness:
  "(2::int) < int (length (split_sentences cats_text)) \<and>
   top_idx cats_text 2 = [1, 2] \<and>
   chosen cats_text 2 = [u ''Dogs are mammals too.'', u ''Cats and dogs are pets.''] \<and>
   subseq [u ''Dogs are mammals too.'', u ''Cats and dogs are pets.''] (split_sentences cats_text)"
proof -
  have h: "(2::int) < int (length (split_sentences cats_text))" by code_simp
  have t: "top_idx cats_text 2 = [1, 2]" by code_simp
  have c: "chosen cats_text 2 = [u ''Dogs are mammals too.'', u ''Cats and dogs are pets.'']" by code_simp
  have "subseq (chosen cats_text 2) (split_sentences cats_text)"
    using C6_summary_in_text_order [OF h, of 300] by blast
  then show ?thesis
    using h t c by simp
qed

section \<open>Footnote spans in sentences\<close>

lemma strip_brackets_match:
  assumes "c = LB \<and> takeWhile (\<lambda>x. x \<noteq> RB) cs \<noteq> [] \<and> dropWhile (\<lambda>x. x \<noteq> RB) cs \<noteq> []"
  shows "strip_brackets (c # cs) = SP # strip_brackets (tl (dropWhile (\<lambda>x. x \<noteq> RB) cs))"
  by (subst strip_brackets.simps(2)) (rule if_P [OF assms])

lemma strip_brackets_keep:
  assumes "\<not> (c = LB \<and> takeWhile (\<lambda>x. x \<noteq> RB) cs \<noteq> [] \<and> dropWhile (\<lambda>x. x \<noteq> RB) cs \<noteq> [])"
  shows "strip_brackets (c # cs) = c # strip_brackets cs"
  by (subst strip_brackets.simps(2)) (rule if_not_P [OF assms])

lemma set_strip_brackets: "set (strip_brackets t) \<subseteq> insert SP (set t)"
proof (induction t rule: strip_brackets.induct)
  case 1
  show ?case by (simp only: strip_brackets.simps) simp
next
  case (2 c cs)
  let ?dw = "dropWhile (\<lambda>x. x \<noteq> RB) cs"
  show ?case
  proof (cases "c = LB \<and> takeWhile (\<lambda>x. x \<noteq> RB) cs \<noteq> [] \<and> ?dw \<noteq> []")
    case True
    have "set (tl ?dw) \<subseteq> set ?dw" by (rule set_mono_sublist [OF sublist_tl])
    moreover have "set ?dw \<subseteq> set cs" by (rule set_mono_sublist [OF sublist_dropWhile])
    moreover have "set (strip_brackets (tl ?dw)) \<subseteq> insert SP (set (tl ?dw))"
      by (rule "2.IH"(1) [OF True])
    ultimately have "set (strip_brackets (tl ?dw)) \<subseteq> insert SP (set cs)" by blast
    then show ?thesis unfolding strip_brackets_match [OF True] by auto
  next
    case False
    have "set (strip_brackets cs) \<subseteq> insert SP (set cs)"
      by (rule "2.IH"(2) [OF False])
    then show ?thesis unfolding strip_brackets_keep [OF False] by auto
  qed
qed

lemma strip_brackets_no_span: "\<not> has_span (strip_brackets t)"
proof (induction t rule: strip_brackets.induct)
  case 1
  show ?case by (simp only: strip_brackets.simps has_span.simps) simp
next
  case (2 c cs)
  let ?tw = "takeWhile (\<lambda>x. x \<noteq> RB) cs"
  let ?dw = "dropWhile (\<lambda>x. x \<noteq> RB) cs"
  show ?case
  proof (cases "c = LB \<and> ?tw \<noteq> [] \<and> ?dw \<noteq> []")
    case True
    have ih: "\<not> has_span (strip_brackets (tl ?dw))" by (rule "2.IH"(1) [OF True])
    have "SP \<noteq> LB" by (simp add: SP_def LB_def)
    then show ?thesis
      unfolding strip_brackets_match [OF True] using ih by (simp only: has_span.simps) simp
  next
    case False
    have ih: "\<not> has_span (strip_brackets cs)" by (rule "2.IH"(2) [OF False])
    have no: "\<not> (c = LB \<and> takeWhile (\<lambda>x. x \<noteq> RB) (strip_brackets cs) \<noteq> []
             \<and> dropWhile (\<lambda>x. x \<noteq> RB) (strip_brackets cs) \<noteq> [])"
    proof
      assume a: "c = LB \<and> takeWhile (\<lambda>x. x \<noteq> RB) (strip_brackets cs) \<noteq> []
             \<and> dropWhile (\<lambda>x. x \<noteq> RB) (strip_brackets cs) \<noteq> []"
      then have "?tw = [] \<or> ?dw = []" using False by blast
      then show False
      proof
        assume tw: "?tw = []"
        show False
        proof (cases cs)
          case Nil
          then have "strip_brackets cs = []" by (simp only: strip_brackets.simps)
          then show False using a by simp
        next
          case (Cons x xs)
          then have x: "x = RB" using tw by (simp split: if_splits)
          have "RB \<noteq> LB" by (simp add: RB_def LB_def)
          then have "strip_brackets (RB # xs) = RB # strip_brackets xs"
            by (intro strip_brackets_keep) simp
          then have "takeWhile (\<lambda>x. x \<noteq> RB) (strip_brackets cs) = []"
            using Cons x by simp
          then show False using a by simp
        qed
      next
        assume "?dw = []"
        then have "RB \<notin> set cs" by (auto simp: dropWhile_eq_Nil_conv)
        moreover have "RB \<noteq> SP" by (simp add: SP_def RB_def)
        ultimately have "RB \<notin> set (strip_brackets cs)"
          using set_strip_brackets [of cs] by blast
        then have "dropWhile (\<lambda>x. x \<noteq> RB) (strip_brackets cs) = []"
          by (auto simp: dropWhile_eq_Nil_conv)
        then show False using a by simp
      qed
    qed
    show ?thesis
      unfolding strip_brackets_keep [OF False] using ih no by (simp only: has_span.simps) simp
  qed
qed

lemma has_span_intro:
  "mid \<noteq> [] \<Longrightarrow> RB \<notin> set mid \<Longrightarrow> has_span (pre @ [LB] @ mid @ [RB] @ post)"
proof (induction pre)
  case Nil
  have m: "\<And>x. x \<in> set mid \<Longrightarrow> x \<noteq> RB" using Nil.prems(2) by blast
  have "takeWhile (\<lambda>x. x \<noteq> RB) (mid @ RB # post) = mid"
    by (simp add: takeWhile_append2 [OF m])
  moreover have "dropWhile (\<lambda>x. x \<noteq> RB) (mid @ RB # post) = RB # post"
    by (simp add: dropWhile_append2 [OF m])
  ultimately show ?case using Nil.prems(1) by simp
next
  case (Cons p pre)
  then show ?case by simp
qed

lemma has_span_prepend: "has_span s \<Longrightarrow> has_span (ps @ s)"
  by (induction ps) simp_all

lemma has_span_append: "has_span s \<Longrightarrow> has_span (s @ ss)"
proof (induction s)
  case Nil
  then show ?case by simp
next
  case (Cons c cs)
  show ?case
  proof (cases "has_span cs")
    case True
    then have "has_span (cs @ ss)" by (rule Cons.IH)
    then show ?thesis by simp
  next
    case False
    then have h: "c = LB \<and> takeWhile (\<lambda>x. x \<noteq> RB) cs \<noteq> [] \<and> dropWhile (\<lambda>x. x \<noteq> RB) cs \<noteq> []"
      using Cons.prems by simp
    then have x: "RB \<in> set cs" by (auto simp: dropWhile_eq_Nil_conv)
    have "takeWhile (\<lambda>x. x \<noteq> RB) (cs @ ss) = takeWhile (\<lambda>x. x \<noteq> RB) cs"
      by (rule takeWhile_append1 [OF x]) simp
    moreover have "dropWhile (\<lambda>x. x \<noteq> RB) (cs @ ss) = dropWhile (\<lambda>x. x \<noteq> RB) cs @ ss"
      by (rule dropWhile_append1 [OF x]) simp
    ultimately show ?thesis using h by simp
  qed
qed

lemma has_span_sublist:
  assumes "sublist s t" "has_span s"
  shows "has_span t"
proof -
  obtain ps ss where t: "t = ps @ s @ ss" using assms(1) by (auto simp: sublist_def)
  have "has_span (s @ ss)" using assms(2) by (rule has_span_append)
  then show ?thesis unfolding t by (rule has_span_prepend)
qed

lemma sublist_chain: "sublist a b \<Longrightarrow> sublist b c \<Longrightarrow> sublist a c"
proof -
  assume "sublist a b" "sublist b c"
  then obtain p1 s1 p2 s2 where "b = p1 @ a @ s1" "c = p2 @ b @ s2"
    by (auto simp: sublist_def)
  then have "c = (p2 @ p1) @ a @ (s1 @ s2)" by simp
  then show ?thesis unfolding sublist_def by blast
qed

lemma sublist_strip: "sublist (strip s) s"
proof -
  have "suffix (dropWhile is_space (rev (dropWhile is_space s))) (rev (dropWhile is_space s))"
    by (rule suffix_dropWhile)
  then have "sublist (rev (dropWhile is_space (rev (dropWhile is_space s)))) (dropWhile is_space s)"
    by (simp add: sublist_rev_left)
  moreover have "sublist (dropWhile is_space s) s" by simp
  ultimately show ?thesis unfolding strip_def by (rule sublist_chain)
qed

lemma sublist_re_split: "p \<in> set (re_split cur xs) \<Longrightarrow> sublist p (rev cur @ xs)"
proof (induction cur xs rule: re_split.induct)
  case (1 cur)
  then show ?case by simp
next
  case (2 cur c)
  then show ?case by simp
next
  case (3 cur c d cs)
  show ?case
  proof (cases "is_terminal c \<and> (is_space d \<or> d = LB)")
    case True
    then have "p = rev cur @ [c] \<or> p \<in> set (re_split [] (d # cs))"
      using "3.prems" by auto
    then show ?thesis
    proof
      assume "p = rev cur @ [c]"
      then have "rev cur @ c # d # cs = [] @ p @ (d # cs)" by simp
      then show ?thesis unfolding sublist_def by blast
    next
      assume "p \<in> set (re_split [] (d # cs))"
      then have "sublist p (d # cs)" using "3.IH"(1) True by simp
      then obtain ps ss where "d # cs = ps @ p @ ss" by (auto simp: sublist_def)
      then have "rev cur @ c # d # cs = (rev cur @ c # ps) @ p @ ss" by simp
      then show ?thesis unfolding sublist_def by blast
    qed
  next
    case False
    then have "p \<in> set (re_split (c # cur) (d # cs))" using "3.prems" by auto
    then have "sublist p (rev (c # cur) @ d # cs)" using "3.IH"(2) False by simp
    then show ?thesis by simp
  qed
qed

lemma span_head:
  assumes "mid \<noteq> []" "RB \<notin> set mid"
  shows "takeWhile (\<lambda>x. x \<noteq> RB) (mid @ RB # post) = mid \<and>
         dropWhile (\<lambda>x. x \<noteq> RB) (mid @ RB # post) = RB # post"
proof -
  have m: "\<And>x. x \<in> set mid \<Longrightarrow> x \<noteq> RB" using assms(2) by blast
  show ?thesis by (simp add: takeWhile_append2 [OF m] dropWhile_append2 [OF m])
qed

lemma strip_brackets_leftmost:
  assumes "mid \<noteq> []" "RB \<notin> set mid"
  shows "no_open pre \<Longrightarrow>
         strip_brackets (pre @ [LB] @ mid @ [RB] @ post) = pre @ [SP] @ strip_brackets post"
proof (induction pre rule: no_open.induct)
  case 1
  have "LB = LB \<and> takeWhile (\<lambda>x. x \<noteq> RB) (mid @ RB # post) \<noteq> [] \<and>
        dropWhile (\<lambda>x. x \<noteq> RB) (mid @ RB # post) \<noteq> []"
    using span_head [OF assms, of post] assms(1) by simp
  then have "strip_brackets (LB # mid @ RB # post) =
             SP # strip_brackets (tl (dropWhile (\<lambda>x. x \<noteq> RB) (mid @ RB # post)))"
    by (rule strip_brackets_match)
  then show ?case using span_head [OF assms, of post] by simp
next
  case (2 c)
  then have c: "c \<noteq> LB" by simp
  have base: "strip_brackets ([] @ [LB] @ mid @ [RB] @ post) = [] @ [SP] @ strip_brackets post"
  proof -
    have "LB = LB \<and> takeWhile (\<lambda>x. x \<noteq> RB) (mid @ RB # post) \<noteq> [] \<and>
          dropWhile (\<lambda>x. x \<noteq> RB) (mid @ RB # post) \<noteq> []"
      using span_head [OF assms, of post] assms(1) by simp
    then have "strip_brackets (LB # mid @ RB # post) =
               SP # strip_brackets (tl (dropWhile (\<lambda>x. x \<noteq> RB) (mid @ RB # post)))"
      by (rule strip_brackets_match)
    then show ?thesis using span_head [OF assms, of post] by simp
  qed
  have "strip_brackets (c # LB # mid @ RB # post) = c # strip_brackets (LB # mid @ RB # post)"
    by (rule strip_brackets_keep) (simp add: c)
  then show ?case using base by simp
next
  case (3 c d cs)
  then have cd: "c \<noteq> LB \<or> d = RB" and rest: "no_open (d # cs)" by simp_all
  have ih: "strip_brackets ((d # cs) @ [LB] @ mid @ [RB] @ post) = (d # cs) @ [SP] @ strip_brackets post"
    using "3.IH" rest by simp
  have "\<not> (c = LB \<and> takeWhile (\<lambda>x. x \<noteq> RB) (d # cs @ LB # mid @ RB # post) \<noteq> [] \<and>
            dropWhile (\<lambda>x. x \<noteq> RB) (d # cs @ LB # mid @ RB # post) \<noteq> [])"
    using cd by auto
  then have "strip_brackets (c # d # cs @ LB # mid @ RB # post) =
             c # strip_brackets (d # cs @ LB # mid @ RB # post)"
    by (rule strip_brackets_keep)
  then show ?case using ih by simp
qed

lemma has_span_elim:
  "has_span t \<Longrightarrow>
   \<exists>pre mid post. t = pre @ [LB] @ mid @ [RB] @ post \<and> no_open pre \<and> mid \<noteq> [] \<and> RB \<notin> set mid"
proof (induction t)
  case Nil
  then show ?case by simp
next
  case (Cons c cs)
  let ?tw = "takeWhile (\<lambda>x. x \<noteq> RB) cs"
  let ?dw = "dropWhile (\<lambda>x. x \<noteq> RB) cs"
  show ?case
  proof (cases "c = LB \<and> ?tw \<noteq> [] \<and> ?dw \<noteq> []")
    case True
    then have "hd ?dw = RB" using hd_dropWhile [of "\<lambda>x. x \<noteq> RB" cs] by auto
    then have dw: "?dw = RB # tl ?dw" using True by (cases ?dw) auto
    have "cs = ?tw @ ?dw" by simp
    then have "c # cs = [] @ [LB] @ ?tw @ [RB] @ tl ?dw" using True dw by simp
    moreover have "RB \<notin> set ?tw" using set_takeWhileD [of RB "\<lambda>x. x \<noteq> RB" cs] by blast
    ultimately show ?thesis using True by (metis no_open.simps(1))
  next
    case False
    then have "has_span cs" using Cons.prems unfolding has_span.simps by blast
    then obtain pre mid post where d: "cs = pre @ [LB] @ mid @ [RB] @ post" "no_open pre"
        "mid \<noteq> []" "RB \<notin> set mid"
      using Cons.IH by blast
    have "RB \<in> set cs" using d(1) by simp
    then have "?dw \<noteq> []" by (auto simp: dropWhile_eq_Nil_conv)
    then have c: "c \<noteq> LB \<or> ?tw = []" using False by blast
    have "no_open (c # pre)"
    proof (cases pre)
      case Nil
      then have "?tw \<noteq> []" using d(1) by (simp add: LB_def RB_def)
      then show ?thesis using c Nil by simp
    next
      case (Cons e es)
      have "?tw = [] \<longrightarrow> e = RB" using d(1) Cons by (auto split: if_splits)
      then show ?thesis using c Cons d(2) by auto
    qed
    moreover have "c # cs = (c # pre) @ [LB] @ mid @ [RB] @ post" using d(1) by simp
    ultimately show ?thesis using d(3,4) by blast
  qed
qed

lemma strip_brackets_fixed: "\<not> has_span t \<Longrightarrow> strip_brackets t = t"
proof (induction t)
  case Nil
  show ?case by (simp only: strip_brackets.simps)
next
  case (Cons c cs)
  then have no: "\<not> (c = LB \<and> takeWhile (\<lambda>x. x \<noteq> RB) cs \<noteq> [] \<and> dropWhile (\<lambda>x. x \<noteq> RB) cs \<noteq> [])"
    and rest: "\<not> has_span cs" by simp_all
  have "strip_brackets (c # cs) = c # strip_brackets cs" using no by (rule strip_brackets_keep)
  then show ?case using Cons.IH [OF rest] by simp
qed

text \<open>
  C4, as the specification states it: every bracketed span, empty and nested ones too, is
  removed before the text is split. An empty pair of brackets stays in its sentence, and of
  a nested span the part behind the first closing bracket stays.
\<close>

theorem C4_counterexample:
  "split_sentences (u ''ab [] cd.'') = [u ''ab [] cd.''] \<and>
   split_sentences (u ''x [a[b]c] y.'') = [u ''x  c] y.'']"
  by code_simp

text \<open>
  C4, amended: \<open>split_sentences\<close> segments the text from which the footnote spans have been
  removed, a span being an opening bracket, one or more characters other than \<open>]\<close>, and
  \<open>]\<close>: the leftmost span of a text is replaced by one space and the removal goes on behind
  it, a text that has a span has a leftmost one, and a text without a span is left as it is.
  So no sentence that \<open>split_sentences\<close> returns holds such a span.
\<close>

theorem C4_footnote_spans_removed:
  "split_sentences text =
     (if strip (collapse_ws text) = [] then []
      else filter (\<lambda>p. 2 < length p)
             (map strip (re_split [] (strip_brackets (strip (collapse_ws text)))))) \<and>
   (no_open pre \<and> mid \<noteq> [] \<and> RB \<notin> set mid \<longrightarrow>
      strip_brackets (pre @ [LB] @ mid @ [RB] @ post) = pre @ [SP] @ strip_brackets post) \<and>
   ((\<forall>p m q. t = p @ [LB] @ m @ [RB] @ q \<longrightarrow> m = [] \<or> RB \<in> set m) \<longrightarrow> strip_brackets t = t) \<and>
   ((\<exists>p m q. t = p @ [LB] @ m @ [RB] @ q \<and> m \<noteq> [] \<and> RB \<notin> set m) \<longrightarrow>
      (\<exists>p m q. t = p @ [LB] @ m @ [RB] @ q \<and> no_open p \<and> m \<noteq> [] \<and> RB \<notin> set m)) \<and>
   (s \<in> set (split_sentences text) \<and> mid \<noteq> [] \<and> RB \<notin> set mid \<longrightarrow>
      s \<noteq> pre @ [LB] @ mid @ [RB] @ post)"
proof -
  have a: "split_sentences text =
     (if strip (collapse_ws text) = [] then []
      else filter (\<lambda>p. 2 < length p)
             (map strip (re_split [] (strip_brackets (strip (collapse_ws text))))))"
    by (simp add: split_sentences_def Let_def)
  have b: "no_open pre \<and> mid \<noteq> [] \<and> RB \<notin> set mid \<longrightarrow>
      strip_brackets (pre @ [LB] @ mid @ [RB] @ post) = pre @ [SP] @ strip_brackets post"
    using strip_brackets_leftmost [of mid pre post] by blast
  have c: "(\<forall>p m q. t = p @ [LB] @ m @ [RB] @ q \<longrightarrow> m = [] \<or> RB \<in> set m) \<longrightarrow> strip_brackets t = t"
  proof
    assume h: "\<forall>p m q. t = p @ [LB] @ m @ [RB] @ q \<longrightarrow> m = [] \<or> RB \<in> set m"
    have "\<not> has_span t"
    proof
      assume "has_span t"
      then obtain p m q where "t = p @ [LB] @ m @ [RB] @ q" "m \<noteq> []" "RB \<notin> set m"
        using has_span_elim by blast
      then show False using h by blast
    qed
    then show "strip_brackets t = t" by (rule strip_brackets_fixed)
  qed
  have d: "(\<exists>p m q. t = p @ [LB] @ m @ [RB] @ q \<and> m \<noteq> [] \<and> RB \<notin> set m) \<longrightarrow>
      (\<exists>p m q. t = p @ [LB] @ m @ [RB] @ q \<and> no_open p \<and> m \<noteq> [] \<and> RB \<notin> set m)"
  proof
    assume "\<exists>p m q. t = p @ [LB] @ m @ [RB] @ q \<and> m \<noteq> [] \<and> RB \<notin> set m"
    then have "has_span t" using has_span_intro by blast
    then show "\<exists>p m q. t = p @ [LB] @ m @ [RB] @ q \<and> no_open p \<and> m \<noteq> [] \<and> RB \<notin> set m"
      by (rule has_span_elim)
  qed
  have e: "s \<in> set (split_sentences text) \<and> mid \<noteq> [] \<and> RB \<notin> set mid \<longrightarrow>
      s \<noteq> pre @ [LB] @ mid @ [RB] @ post"
  proof (intro impI notI)
    assume h: "s \<in> set (split_sentences text) \<and> mid \<noteq> [] \<and> RB \<notin> set mid"
       and eq: "s = pre @ [LB] @ mid @ [RB] @ post"
    let ?t = "strip_brackets (strip (collapse_ws text))"
    obtain p where p: "p \<in> set (re_split [] ?t)" "s = strip p"
      using h by (auto simp: split_sentences_def Let_def split: if_splits)
    have "sublist s p" unfolding p(2) by (rule sublist_strip)
    moreover have "sublist p ?t" using sublist_re_split [OF p(1)] by simp
    ultimately have "sublist s ?t" by (rule sublist_chain)
    moreover have "has_span s" unfolding eq using h by (intro has_span_intro) simp_all
    ultimately have "has_span ?t" by (rule has_span_sublist)
    then show False using strip_brackets_no_span by blast
  qed
  show ?thesis using a b c d e by blast
qed

theorem C4_witness:
  "split_sentences (u ''Seoul[1] is big. It [note 2] grows.'') = [u ''Seoul  is big.'', u ''It   grows.''] \<and>
   strip_brackets (u ''Seoul[1] is big.'') = u ''Seoul  is big.'' \<and>
   u ''Seoul  is big.'' \<noteq> u ''Seoul[1] is big.''"
proof -
  have e: "split_sentences (u ''Seoul[1] is big. It [note 2] grows.'') = [u ''Seoul  is big.'', u ''It   grows.'']"
    by code_simp
  have m: "no_open (u ''Seoul'') \<and> u ''1'' \<noteq> [] \<and> RB \<notin> set (u ''1'')" by code_simp
  have s: "u ''Seoul  is big.'' \<in> set (split_sentences (u ''Seoul[1] is big. It [note 2] grows.''))"
    by (simp add: e)
  have t: "u ''Seoul'' @ [LB] @ u ''1'' @ [RB] @ u '' is big.'' = u ''Seoul[1] is big.''" by code_simp
  have r: "u ''Seoul'' @ [SP] @ strip_brackets (u '' is big.'') = u ''Seoul  is big.''" by code_simp
  have "strip_brackets (u ''Seoul'' @ [LB] @ u ''1'' @ [RB] @ u '' is big.'') =
        u ''Seoul'' @ [SP] @ strip_brackets (u '' is big.'')"
    using C4_footnote_spans_removed [of _ "u ''Seoul''" "u ''1''" "u '' is big.''"] m by blast
  then have b: "strip_brackets (u ''Seoul[1] is big.'') = u ''Seoul  is big.''"
    unfolding t r .
  have "u ''Seoul  is big.'' \<noteq> u ''Seoul'' @ [LB] @ u ''1'' @ [RB] @ u '' is big.''"
    using C4_footnote_spans_removed [of "u ''Seoul[1] is big. It [note 2] grows.''" "u ''Seoul''" "u ''1''"
        "u '' is big.''" _ "u ''Seoul  is big.''"] m s by blast
  then have c: "u ''Seoul  is big.'' \<noteq> u ''Seoul[1] is big.''"
    unfolding t .
  show ?thesis using e b c by blast
qed

end
